theory Spec2Isabelle
  imports Main "HOL-Library.AList"
begin

section \<open>Strings\<close>

text \<open>
  Strings are lists of characters. The action strings of the admin panel
  (\<^verbatim>\<open>admin::roles.create-draft\<close>, \<^verbatim>\<open>plugin::users-permissions.roles.read\<close>) are ASCII;
  \<open>toUpperCase\<close> maps the letters \<open>a\<close> to \<open>z\<close> to their capitals and leaves every other
  character as it is.
\<close>

definition toUpperCase :: "char \<Rightarrow> char" where
  "toUpperCase c =
     (case map_of (zip ''abcdefghijklmnopqrstuvwxyz'' ''ABCDEFGHIJKLMNOPQRSTUVWXYZ'') c of
        None \<Rightarrow> c
      | Some u \<Rightarrow> u)"

text \<open>
  Modelled from the spec: \<^verbatim>\<open>capitalise\<close> of \<^verbatim>\<open>../utils/strings\<close> is imported by
  \<^verbatim>\<open>useRBAC.ts\<close> and is not among the sources. The spec has it capitalize the first
  letter of its argument; the rest of the string and the empty string are unchanged.
\<close>

definition capitalise :: "string \<Rightarrow> string" where
  "capitalise str = (case str of [] \<Rightarrow> [] | c # cs \<Rightarrow> toUpperCase c # cs)"

text \<open>
  \<^verbatim>\<open>String.prototype.split\<close> with a separator of one character: the segments between
  the occurrences of the separator, in order. A string without the separator is its
  own single segment, and the empty string gives one empty segment.
\<close>

fun split_on :: "char \<Rightarrow> string \<Rightarrow> string list" where
  "split_on sep [] = [[]]"
| "split_on sep (c # cs) =
     (if c = sep then [] # split_on sep cs
      else (case split_on sep cs of
              [] \<Rightarrow> [[c]]
            | seg # segs \<Rightarrow> (c # seg) # segs))"

text \<open>
  \<^verbatim>\<open>Array.prototype.slice(start)\<close>: a negative start counts from the end, and a start
  outside the array is clamped to it.
\<close>

definition slice_from :: "int \<Rightarrow> 'a list \<Rightarrow> 'a list" where
  "slice_from start xs =
     (let len = int (length xs);
          k = (if start < 0 then max (len + start) 0 else min start len)
      in drop (nat k) xs)"

section \<open>Permissions and the derived action name\<close>

text \<open>
  A \<^verbatim>\<open>Permission\<close> is declared in \<^verbatim>\<open>../features/Auth\<close>; the hook reads its
  \<^verbatim>\<open>action\<close> only. The other fields are the extension of the record.
\<close>

record permission =
  action :: string

text \<open>
  \<^verbatim>\<open>const [action = ''] = permission.action.split('.').slice(-1);\<close>
  \<^verbatim>\<open>return action.split('-').map(capitalise).join('');\<close>
  The destructuring takes the first element of the slice, and the empty string when
  there is none.
\<close>

definition getActionName :: "'a permission_scheme \<Rightarrow> string" where
  "getActionName permission =
     (let action' = (case slice_from (- 1) (split_on CHR ''.'' (action permission)) of
                       [] \<Rightarrow> []
                     | a # _ \<Rightarrow> a)
      in concat (map capitalise (split_on CHR ''-'' action')))"

section \<open>Objects of flags\<close>

text \<open>
  A \<^verbatim>\<open>Record<string, boolean>\<close> is the list of its properties in the order they were
  created. Setting a property that exists keeps its place, setting a new one appends
  it: that is \<open>AList.update\<close>. An object is a value here, so the copy that a spread
  makes is the object itself.

  JavaScript lists a property whose name is an array index, such as a derived name
  \<^verbatim>\<open>1\<close>, before the others, whatever the order of creation; the list keeps the order
  of creation for every name. The claims are about the keys and the flags of an
  object, read through \<open>map fst\<close> and \<open>map_of\<close>, and these do not depend on the order
  in which the merged object is listed (lemma \<open>renamed_order\<close> below).
\<close>

type_synonym flags = "(string \<times> bool) list"

text \<open>\<^verbatim>\<open>{...target, ...source}\<close>: the properties of the source are set on a copy of the target, in order.\<close>

definition spread :: "flags \<Rightarrow> flags \<Rightarrow> flags" where
  "spread target source = foldl (\<lambda>acc (k, v). AList.update k v acc) target source"

text \<open>
  \<^verbatim>\<open>actualPermissionsToCheck.reduce((acc, permission) => ({...acc, [getActionName(permission)]: false}), {})\<close>
\<close>

definition defaultAllowedActions :: "'a permission_scheme list \<Rightarrow> flags" where
  "defaultAllowedActions actual =
     foldl (\<lambda>acc permission. AList.update (getActionName permission) False acc) [] actual"

text \<open>
  The object built in the \<^verbatim>\<open>then\<close> callback:
  \<^verbatim>\<open>res.reduce((acc, permission) => ({...acc, [getActionName(permission)]: true}), {})\<close>
\<close>

definition grantedActions :: "'a permission_scheme list \<Rightarrow> flags" where
  "grantedActions res =
     foldl (\<lambda>acc permission. AList.update (getActionName permission) True acc) [] res"

text \<open>
  \<^verbatim>\<open>Object.entries({...defaultAllowedActions, ...data}).reduce((acc, [name, allowed]) => {\<close>
  \<^verbatim>\<open>  acc[`can${capitalise(name)}`] = allowed; return acc }, {})\<close>
  Spreading \<^verbatim>\<open>undefined\<close> adds nothing.
\<close>

definition allowedActions :: "flags \<Rightarrow> flags option \<Rightarrow> flags" where
  "allowedActions dflt data' =
     foldl (\<lambda>acc (name, allowed). AList.update (''can'' @ capitalise name) allowed acc) []
       (spread dflt (case data' of None \<Rightarrow> [] | Some d \<Rightarrow> d))"

section \<open>The hook\<close>

text \<open>
  The first argument of the hook: left out (the default \<^verbatim>\<open>[]\<close>), an array of
  permissions, or the deprecated object of named groups, given as its entries in the
  order \<^verbatim>\<open>Object.values\<close> visits them.
\<close>

datatype 'a permissionsToCheck =
    Omitted
  | PermissionArray "'a permission_scheme list"
  | PermissionRecord "(string \<times> 'a permission_scheme list) list"

definition deprecation :: string where
  "deprecation = ''useRBAC: The first argument should be an array of permissions, not an object. This will be deprecated in the future.''"

text \<open>
  Modelled from the spec: \<^verbatim>\<open>once\<close> of \<^verbatim>\<open>../utils/once\<close> is not among the sources. By
  the spec the warn-once utility is a process-wide stateful memoization, global
  module state, that emits a single process-lifetime warning, at most once ever,
  regardless of call count. So there is one flag for the whole process: the first
  call through a wrapper passes on to the wrapped function and sets the flag, and
  every later call, through any wrapper, is dropped. The flag is the first argument
  and the first result here; the second result is what \<^verbatim>\<open>console.warn\<close> receives.
\<close>

definition once :: "bool \<Rightarrow> string \<Rightarrow> bool \<times> string list" where
  "once called' message = (if called' then (True, []) else (True, [message]))"

text \<open>
  The state a render of one hook instance reads and writes: the three \<^verbatim>\<open>useState\<close>
  cells, the flag of the warn-once utility behind \<open>warnOnce\<close>
  (\<^verbatim>\<open>React.useMemo(() => once(console.warn), [])\<close>) as the render finds and leaves it,
  the two \<^verbatim>\<open>usePrev\<close> cells, and the calls of
  \<^verbatim>\<open>checkUserHasPermissions\<close> whose promise is not settled yet, each with its two
  arguments. The auth store (\<^verbatim>\<open>useAuth\<close>) and the debounced locale (\<^verbatim>\<open>useQueryParams\<close>,
  \<^verbatim>\<open>useDebounce\<close>) are outside the hook: the loading flag of the store and the debounced
  locale are arguments of a render, and the promise of a check settles by an event.
\<close>

text \<open>
  Modelled from the spec: \<^verbatim>\<open>usePrev\<close> of \<^verbatim>\<open>./usePrev\<close> is not among the sources. By
  the spec a check is triggered when the normalized permission list differs from the
  previous check's input or the debounced locale differs from the locale of the
  previous check; before the first check both cells are \<^verbatim>\<open>undefined\<close>. A render that
  does not trigger has found both cells equal to the current values, so writing the
  current values back on every render, as \<open>useRBAC\<close> does below, stores exactly the
  previous check's input.
\<close>

record ('a, 'e) hook_state =
  isLoading :: bool
  error :: "'e option"
  data :: "flags option"
  called :: bool
  permssionsChecked :: "'a permission_scheme list option"
  localeChecked :: "string option"
  pending :: "('a permission_scheme list \<times> 'a permission_scheme list option) list"

definition initial_state :: "('a, 'e) hook_state" where
  "initial_state =
     \<lparr>isLoading = True, error = None, data = None, called = False,
      permssionsChecked = None, localeChecked = None, pending = []\<rparr>"

text \<open>
  The memo of lines 69 to 79: the normalized list, the flag of \<open>warnOnce\<close> after the
  call, and what was printed. React recomputes the memo when the argument is a new
  object; the model recomputes it on every render, which prints the same: a render
  for which React keeps the memo follows a render with the same argument, which has
  made the call already, and the utility drops every call after the first.
\<close>

definition actualPermissionsToCheck ::
  "'a permissionsToCheck \<Rightarrow> bool \<Rightarrow> 'a permission_scheme list \<times> bool \<times> string list" where
  "actualPermissionsToCheck permissionsToCheck warned =
     (case permissionsToCheck of
        Omitted \<Rightarrow> ([], warned, [])
      | PermissionArray ps \<Rightarrow> (ps, warned, [])
      | PermissionRecord groups \<Rightarrow>
          (let (warned', printed) = once warned deprecation
           in (concat (map snd groups), warned', printed)))"

text \<open>The value the hook returns.\<close>

record ('a, 'e) rbac =
  ret_allowedActions :: flags
  ret_permissions :: "'a permission_scheme list"
  ret_isLoading :: bool
  ret_error :: "'e option"

text \<open>
  One render of the hook in state \<open>st\<close>, with the two arguments, the auth store's
  loading flag and the debounced locale. The result is the returned value, which is
  computed from the state the render started in, the state after the effect of lines
  99 to 137 has run, and the warnings printed.

  \<^verbatim>\<open>isEqual\<close> is the deep equality of lodash, on arrays of permissions the equality of
  the lists; \<^verbatim>\<open>undefined\<close> equals no array. React runs the effect when one of its
  dependencies has changed, and when none has, both cells equal the current values
  and the condition is false: so the condition alone decides.
\<close>

definition useRBAC ::
  "'a permissionsToCheck \<Rightarrow> 'a permission_scheme list option \<Rightarrow> bool \<Rightarrow> string option \<Rightarrow>
   ('a, 'e) hook_state \<Rightarrow> ('a, 'e) rbac \<times> ('a, 'e) hook_state \<times> string list" where
  "useRBAC permissionsToCheck passedPermissions isLoadingAuth debouncedLocale st =
     (let (actual, warned, printed) = actualPermissionsToCheck permissionsToCheck (called st);
          ret = \<lparr>ret_allowedActions = allowedActions (defaultAllowedActions actual) (data st),
                 ret_permissions = actual,
                 ret_isLoading = (isLoading st \<or> isLoadingAuth),
                 ret_error = error st\<rparr>;
          st1 = st\<lparr>called := warned\<rparr>;
          st2 = (if permssionsChecked st \<noteq> Some actual \<or> localeChecked st \<noteq> debouncedLocale
                 then st1\<lparr>isLoading := True, data := None, error := None,
                          pending := pending st1 @ [(actual, passedPermissions)]\<rparr>
                 else st1)
      in (ret, st2\<lparr>permssionsChecked := Some actual, localeChecked := debouncedLocale\<rparr>, printed))"

text \<open>The three callbacks on the promise of \<^verbatim>\<open>checkUserHasPermissions\<close>.\<close>

definition then_callback :: "'a permission_scheme list option \<Rightarrow> ('a, 'e) hook_state \<Rightarrow> ('a, 'e) hook_state" where
  "then_callback res st =
     (case res of None \<Rightarrow> st | Some granted \<Rightarrow> st\<lparr>data := Some (grantedActions granted)\<rparr>)"

definition catch_callback :: "'e \<Rightarrow> ('a, 'e) hook_state \<Rightarrow> ('a, 'e) hook_state" where
  "catch_callback err st = st\<lparr>error := Some err\<rparr>"

definition finally_callback :: "('a, 'e) hook_state \<Rightarrow> ('a, 'e) hook_state" where
  "finally_callback st = st\<lparr>isLoading := False\<rparr>"

text \<open>
  What can happen to a mounted instance: it renders, or the promise of the \<open>k\<close>-th
  unsettled call resolves (with a list or with \<^verbatim>\<open>undefined\<close>) or rejects. Nothing
  cancels a call, so the calls settle in any order. An event for a call that does
  not exist changes nothing.
\<close>

datatype ('a, 'e) event =
    Render "'a permissionsToCheck" "'a permission_scheme list option" bool "string option"
  | Resolved nat "'a permission_scheme list option"
  | Rejected nat 'e

definition settle :: "nat \<Rightarrow> ('a, 'e) hook_state \<Rightarrow> ('a, 'e) hook_state" where
  "settle k st = st\<lparr>pending := take k (pending st) @ drop (Suc k) (pending st)\<rparr>"

fun step :: "('a, 'e) event \<Rightarrow> ('a, 'e) hook_state \<Rightarrow> ('a, 'e) hook_state" where
  "step (Render permissionsToCheck passedPermissions isLoadingAuth debouncedLocale) st =
     fst (snd (useRBAC permissionsToCheck passedPermissions isLoadingAuth debouncedLocale st))"
| "step (Resolved k res) st =
     (if k < length (pending st) then finally_callback (then_callback res (settle k st)) else st)"
| "step (Rejected k err) st =
     (if k < length (pending st) then finally_callback (catch_callback err (settle k st)) else st)"

fun printed_by :: "('a, 'e) event \<Rightarrow> ('a, 'e) hook_state \<Rightarrow> string list" where
  "printed_by (Render permissionsToCheck passedPermissions isLoadingAuth debouncedLocale) st =
     snd (snd (useRBAC permissionsToCheck passedPermissions isLoadingAuth debouncedLocale st))"
| "printed_by (Resolved k res) st = []"
| "printed_by (Rejected k err) st = []"

fun run :: "('a, 'e) event list \<Rightarrow> ('a, 'e) hook_state \<Rightarrow> ('a, 'e) hook_state" where
  "run [] st = st"
| "run (ev # evs) st = run evs (step ev st)"

fun is_render :: "('a, 'e) event \<Rightarrow> bool" where
  "is_render (Render permissionsToCheck passedPermissions isLoadingAuth debouncedLocale) = True"
| "is_render (Resolved k res) = False"
| "is_render (Rejected k err) = False"

fun stores_result :: "('a, 'e) event \<Rightarrow> bool" where
  "stores_result (Resolved k (Some granted)) = True"
| "stores_result (Resolved k None) = False"
| "stores_result (Render permissionsToCheck passedPermissions isLoadingAuth debouncedLocale) = False"
| "stores_result (Rejected k err) = False"

text \<open>
  The array form of an argument, in the words of the spec: the object form becomes the
  single array of its values, flattened, in the order \<^verbatim>\<open>Object.values\<close> visits them.
  \<open>flattened_event\<close> is the same event with the argument in array form.
\<close>

fun flattened :: "'a permissionsToCheck \<Rightarrow> 'a permissionsToCheck" where
  "flattened (PermissionRecord groups) = PermissionArray (concat (map snd groups))"
| "flattened (PermissionArray ps) = PermissionArray ps"
| "flattened Omitted = Omitted"

fun flattened_event :: "('a, 'e) event \<Rightarrow> ('a, 'e) event" where
  "flattened_event (Render i passed auth loc) = Render (flattened i) passed auth loc"
| "flattened_event (Resolved k res) = Resolved k res"
| "flattened_event (Rejected k err) = Rejected k err"

text \<open>The values the hook returns at the renders of a sequence of events, in order.\<close>

fun returned :: "('a, 'e) event list \<Rightarrow> ('a, 'e) hook_state \<Rightarrow> ('a, 'e) rbac list" where
  "returned [] st = []"
| "returned (Render i passed auth loc # evs) st =
     fst (useRBAC i passed auth loc st) # returned evs (step (Render i passed auth loc) st)"
| "returned (Resolved k res # evs) st = returned evs (step (Resolved k res) st)"
| "returned (Rejected k err # evs) st = returned evs (step (Rejected k err) st)"

subsection \<open>A process with several instances\<close>

text \<open>
  The console of the process, the flag of the warn-once utility, which by the spec
  is one for the process, and the hook instances mounted in it. An event of an
  instance finds the flag of the process in its state and leaves it there.
\<close>

record ('a, 'e) process =
  console :: "string list"
  warned :: bool
  hooks :: "('a, 'e) hook_state list"

datatype ('a, 'e) process_event = Mount | At nat "('a, 'e) event"

definition initial_process :: "('a, 'e) process" where
  "initial_process = \<lparr>console = [], warned = False, hooks = []\<rparr>"

fun process_step :: "('a, 'e) process_event \<Rightarrow> ('a, 'e) process \<Rightarrow> ('a, 'e) process" where
  "process_step Mount p = p\<lparr>hooks := hooks p @ [initial_state]\<rparr>"
| "process_step (At i ev) p =
     (if i < length (hooks p)
      then (let st = (hooks p ! i)\<lparr>called := warned p\<rparr>
            in \<lparr>console = console p @ printed_by ev st,
                warned = called (step ev st),
                hooks = (hooks p)[i := step ev st]\<rparr>)
      else p)"

fun process_run :: "('a, 'e) process_event list \<Rightarrow> ('a, 'e) process \<Rightarrow> ('a, 'e) process" where
  "process_run [] p = p"
| "process_run (ev # evs) p = process_run evs (process_step ev p)"

section \<open>Example permissions\<close>

definition read_permission :: permission where
  "read_permission = \<lparr>action = ''admin::roles.read''\<rparr>"

definition create_permission :: permission where
  "create_permission = \<lparr>action = ''admin::roles.create''\<rparr>"

definition update_permission :: permission where
  "update_permission = \<lparr>action = ''admin::roles.update''\<rparr>"

section \<open>Properties of the string functions\<close>

lemma split_on_nonempty: "split_on sep s \<noteq> []"
  by (induction s) (auto split: list.splits)

lemma split_on_no_sep: "sep \<notin> set s \<Longrightarrow> split_on sep s = [s]"
  by (induction s) auto

lemma split_on_append: "split_on sep (a @ sep # b) = split_on sep a @ split_on sep b"
  by (induction a) (auto split: list.splits simp: split_on_nonempty)

text \<open>No segment contains the separator, and the last segment is what follows its last occurrence.\<close>

lemma split_on_segments: "seg \<in> set (split_on sep s) \<Longrightarrow> sep \<notin> set seg"
  by (induction s arbitrary: seg) (auto split: if_splits list.splits)

lemma last_split_on: "last (split_on sep s) = rev (takeWhile (\<lambda>c. c \<noteq> sep) (rev s))"
proof (cases "sep \<in> set s")
  case False
  then have tw: "takeWhile (\<lambda>c. c \<noteq> sep) (rev s) = rev s"
    by (intro takeWhile_eq_all_conv[THEN iffD2]) auto
  show ?thesis using False by (simp add: split_on_no_sep tw)
next
  case True
  then obtain a b where s: "s = a @ sep # b" and b: "sep \<notin> set b"
    by (meson split_list_last)
  have "takeWhile (\<lambda>c. c \<noteq> sep) (rev b @ sep # rev a) = rev b"
    using b by (subst takeWhile_append2) auto
  with s b show ?thesis
    by (simp add: split_on_append split_on_no_sep)
qed

lemma slice_from_last: "xs \<noteq> [] \<Longrightarrow> slice_from (- 1) xs = [last xs]"
  by (cases xs rule: rev_cases) (simp_all add: slice_from_def)

lemma concat_capitalise_Nil:
  "concat (map capitalise (split_on sep s)) = [] \<longleftrightarrow> set s \<subseteq> {sep}"
  by (induction s) (auto simp: capitalise_def split: list.splits if_splits)

lemma toUpperCase_idem: "toUpperCase (toUpperCase c) = toUpperCase c"
  by (simp add: toUpperCase_def)

lemma capitalise_Nil: "capitalise [] = []"
  by (simp add: capitalise_def)

lemma capitalise_Cons: "capitalise (c # cs) = toUpperCase c # cs"
  by (simp add: capitalise_def)

lemma capitalise_concat: "capitalise (concat (map capitalise ps)) = concat (map capitalise ps)"
proof (induction ps)
  case Nil
  show ?case by (simp add: capitalise_Nil)
next
  case (Cons p ps)
  show ?case
  proof (cases p)
    case Nil
    with Cons show ?thesis by (simp add: capitalise_Nil)
  next
    case (Cons c cs)
    then show ?thesis by (simp add: capitalise_Cons toUpperCase_idem)
  qed
qed

lemma capitalise_getActionName: "capitalise (getActionName p) = getActionName p"
  by (simp add: getActionName_def Let_def capitalise_concat)

subsection \<open>Folding updates\<close>

lemma foldl_update_keys:
  "fst ` set (foldl (\<lambda>acc x. AList.update (f x) (g x) acc) acc xs) = fst ` set acc \<union> f ` set xs"
  by (induction xs arbitrary: acc) (auto simp: dom_update)

lemma foldl_update_distinct:
  "distinct (map fst acc) \<Longrightarrow> distinct (map fst (foldl (\<lambda>acc x. AList.update (f x) (g x) acc) acc xs))"
  by (induction xs arbitrary: acc) (auto simp: distinct_update)

lemma foldl_update_map_of:
  "map_of (foldl (\<lambda>acc x. AList.update (f x) (g x) acc) acc xs) =
     map_of acc ++ map_of (rev (map (\<lambda>x. (f x, g x)) xs))"
proof (induction xs arbitrary: acc)
  case Nil
  show ?case by simp
next
  case (Cons x xs)
  show ?case
    by (simp add: Cons.IH update_conv' fun_eq_iff map_add_def split: option.splits)
qed

lemma foldl_update_const:
  "map_of (foldl (\<lambda>acc x. AList.update (f x) v acc) acc xs) k =
     (if k \<in> f ` set xs then Some v else map_of acc k)"
  by (induction xs arbitrary: acc) (auto simp: update_conv')

lemma map_of_rev_distinct: "distinct (map fst xs) \<Longrightarrow> map_of (rev xs) = map_of xs"
proof (induction xs)
  case Nil
  show ?case by simp
next
  case (Cons x xs)
  then have "fst x \<notin> dom (map_of xs)" by (simp add: dom_map_of_conv_image_fst)
  with Cons show ?case
    by (cases x) (auto simp: fun_eq_iff map_add_def split: option.splits)
qed

lemma map_of_prefix_keys:
  "map_of (map (\<lambda>x. (pre @ fst x, snd x)) xs) (pre @ n) = map_of xs n"
  by (induction xs) auto

lemma map_of_prefix_keys_None:
  "\<not> (\<exists>n. k = pre @ n \<and> n \<in> fst ` set xs) \<Longrightarrow> map_of (map (\<lambda>x. (pre @ fst x, snd x)) xs) k = None"
  by (induction xs) auto


subsection \<open>The objects of flags\<close>

lemma defaultAllowedActions_keys:
  "fst ` set (defaultAllowedActions ps) = getActionName ` set ps"
  by (simp add: defaultAllowedActions_def foldl_update_keys)

lemma defaultAllowedActions_distinct: "distinct (map fst (defaultAllowedActions ps))"
  by (simp add: defaultAllowedActions_def foldl_update_distinct)

lemma defaultAllowedActions_lookup:
  "map_of (defaultAllowedActions ps) n = (if n \<in> getActionName ` set ps then Some False else None)"
  by (simp add: defaultAllowedActions_def foldl_update_const)

lemma grantedActions_keys: "fst ` set (grantedActions ps) = getActionName ` set ps"
  by (simp add: grantedActions_def foldl_update_keys)

lemma grantedActions_distinct: "distinct (map fst (grantedActions ps))"
  by (simp add: grantedActions_def foldl_update_distinct)

lemma grantedActions_lookup:
  "map_of (grantedActions ps) n = (if n \<in> getActionName ` set ps then Some True else None)"
  by (simp add: grantedActions_def foldl_update_const)

lemma spread_keys: "fst ` set (spread a b) = fst ` set a \<union> fst ` set b"
  by (simp add: spread_def case_prod_unfold foldl_update_keys)

lemma spread_distinct: "distinct (map fst a) \<Longrightarrow> distinct (map fst (spread a b))"
  by (simp add: spread_def case_prod_unfold foldl_update_distinct)

lemma spread_lookup: "map_of (spread a b) = map_of a ++ map_of (rev b)"
  by (simp add: spread_def case_prod_unfold foldl_update_map_of)

lemma spread_Nil: "spread a [] = a"
  by (simp add: spread_def)

lemma allowedActions_keys:
  "fst ` set (allowedActions dflt d) =
     (\<lambda>n. ''can'' @ capitalise n) ` (fst ` set dflt \<union> (case d of None \<Rightarrow> {} | Some r \<Rightarrow> fst ` set r))"
proof -
  let ?ms = "spread dflt (case d of None \<Rightarrow> [] | Some r \<Rightarrow> r)"
  have "fst ` set (allowedActions dflt d) = (\<lambda>x. ''can'' @ capitalise (fst x)) ` set ?ms"
    by (simp add: allowedActions_def case_prod_unfold foldl_update_keys)
  also have "\<dots> = (\<lambda>n. ''can'' @ capitalise n) ` (fst ` set ?ms)"
    by (simp add: image_image)
  also have "fst ` set ?ms = fst ` set dflt \<union> (case d of None \<Rightarrow> {} | Some r \<Rightarrow> fst ` set r)"
    by (cases d) (simp_all add: spread_keys)
  finally show ?thesis .
qed

lemma allowedActions_distinct: "distinct (map fst (allowedActions dflt d))"
  by (simp add: allowedActions_def case_prod_unfold foldl_update_distinct)

lemma renamed_lookup:
  assumes fixed: "\<forall>x \<in> set ms. capitalise (fst x) = fst x" and dist: "distinct (map fst ms)"
  shows "map_of (foldl (\<lambda>acc (name, allowed). AList.update (''can'' @ capitalise name) allowed acc) [] ms)
           (''can'' @ n) = map_of ms n"
proof -
  let ?ren = "map (\<lambda>x. (''can'' @ fst x, snd x)) ms"
  have eq: "map (\<lambda>x. (''can'' @ capitalise (fst x), snd x)) ms = ?ren"
    using fixed by (intro map_cong) auto
  have keys: "map fst ?ren = map ((@) ''can'') (map fst ms)"
    by (simp add: comp_def)
  have "inj_on ((@) ''can'') (set (map fst ms))"
    by (rule inj_onI) simp
  with dist have "distinct (map ((@) ''can'') (map fst ms))"
    by (simp only: distinct_map simp_thms)
  with keys have "distinct (map fst ?ren)"
    by (simp only:)
  then have rev_eq: "map_of (rev ?ren) = map_of ?ren"
    by (rule map_of_rev_distinct)
  have "map_of (foldl (\<lambda>acc (name, allowed). AList.update (''can'' @ capitalise name) allowed acc) [] ms) =
        map_of (rev (map (\<lambda>x. (''can'' @ capitalise (fst x), snd x)) ms))"
    by (simp add: case_prod_unfold foldl_update_map_of)
  also have "\<dots> = map_of ?ren"
    unfolding eq by (rule rev_eq)
  finally show ?thesis
    by (simp only: map_of_prefix_keys)
qed

lemma allowedActions_lookup:
  assumes "case d of None \<Rightarrow> True | Some r \<Rightarrow> \<forall>n \<in> fst ` set r. capitalise n = n"
  shows "map_of (allowedActions (defaultAllowedActions ps) d) (''can'' @ n) =
           (case (case d of None \<Rightarrow> None | Some r \<Rightarrow> map_of (rev r) n) of
              Some b \<Rightarrow> Some b
            | None \<Rightarrow> if n \<in> getActionName ` set ps then Some False else None)"
proof -
  let ?r = "case d of None \<Rightarrow> [] | Some r \<Rightarrow> r"
  let ?ms = "spread (defaultAllowedActions ps) ?r"
  have "fst ` set ?ms = getActionName ` set ps \<union> fst ` set ?r"
    by (simp add: spread_keys defaultAllowedActions_keys)
  moreover have "\<forall>n \<in> fst ` set ?r. capitalise n = n"
    using assms by (cases d) auto
  ultimately have fixed: "\<forall>x \<in> set ?ms. capitalise (fst x) = fst x"
    by (metis (no_types, lifting) UnE capitalise_getActionName image_eqI imageE)
  have dist: "distinct (map fst ?ms)"
    by (simp add: spread_distinct defaultAllowedActions_distinct)
  have "map_of (allowedActions (defaultAllowedActions ps) d) (''can'' @ n) = map_of ?ms n"
    unfolding allowedActions_def using fixed dist by (rule renamed_lookup)
  also have "\<dots> = (case (case d of None \<Rightarrow> None | Some r \<Rightarrow> map_of (rev r) n) of
              Some b \<Rightarrow> Some b
            | None \<Rightarrow> if n \<in> getActionName ` set ps then Some False else None)"
    by (cases d) (auto simp: spread_lookup map_add_def defaultAllowedActions_lookup split: option.splits)
  finally show ?thesis .
qed

lemma allowedActions_key_shape:
  "k \<in> fst ` set (allowedActions dflt d) \<Longrightarrow> \<exists>n. k = ''can'' @ capitalise n"
  by (auto simp: allowedActions_keys)

subsection \<open>The order of the properties\<close>

text \<open>
  The keys of the merged object are derived action names, which \<open>capitalise\<close> leaves
  as they are, so no two of them give the same key of \<^verbatim>\<open>allowedActions\<close>, and the
  flags of the result do not depend on the order in which \<^verbatim>\<open>Object.entries\<close> lists
  the merged object.
\<close>

lemma renamed_keys:
  "fst ` set (foldl (\<lambda>acc (name, allowed). AList.update (''can'' @ capitalise name) allowed acc) [] ms) =
     (\<lambda>x. ''can'' @ capitalise (fst x)) ` set ms"
  by (simp add: case_prod_unfold foldl_update_keys)

lemma renamed_order:
  assumes fixed: "\<forall>x \<in> set ms. capitalise (fst x) = fst x"
    and dist: "distinct (map fst ms)" and dist': "distinct (map fst ms')"
    and same: "set ms' = set ms"
  shows "map_of (foldl (\<lambda>acc (name, allowed). AList.update (''can'' @ capitalise name) allowed acc) [] ms') =
         map_of (foldl (\<lambda>acc (name, allowed). AList.update (''can'' @ capitalise name) allowed acc) [] ms)"
proof
  fix key
  let ?shape = "foldl (\<lambda>acc (name, allowed). AList.update (''can'' @ capitalise name) allowed acc) []"
  from dist dist' same have lookups: "map_of ms' = map_of ms"
    by (simp add: map_of_inject_set)
  from fixed same have fixed': "\<forall>x \<in> set ms'. capitalise (fst x) = fst x"
    by simp
  show "map_of (?shape ms') key = map_of (?shape ms) key"
  proof (cases "key \<in> (\<lambda>x. ''can'' @ capitalise (fst x)) ` set ms")
    case True
    then obtain x where x: "x \<in> set ms" and "key = ''can'' @ capitalise (fst x)" by blast
    with fixed have key: "key = ''can'' @ fst x" by simp
    have "map_of (?shape ms') (''can'' @ fst x) = map_of ms' (fst x)"
      using fixed' dist' by (rule renamed_lookup)
    moreover have "map_of (?shape ms) (''can'' @ fst x) = map_of ms (fst x)"
      using fixed dist by (rule renamed_lookup)
    ultimately show ?thesis using lookups key by simp
  next
    case False
    then have "key \<notin> fst ` set (?shape ms)" and "key \<notin> fst ` set (?shape ms')"
      by (simp_all only: renamed_keys same not_False_eq_True)
    then have "map_of (?shape ms) key = None" and "map_of (?shape ms') key = None"
      by (simp_all only: map_of_eq_None_iff not_False_eq_True)
    then show ?thesis by simp
  qed
qed

section \<open>Claim C2: the derived action name\<close>

lemma getActionName_last:
  "getActionName p = concat (map capitalise (split_on CHR ''-'' (last (split_on CHR ''.'' (action p)))))"
  by (simp add: getActionName_def slice_from_last split_on_nonempty)

text \<open>
  Claim C2. The derived action name of a permission is the concatenation of the
  capitalised parts, separated by \<open>-\<close>, of the last segment, separated by \<open>.\<close>, of its
  action string; the last segment is what follows the last dot. The action
  \<^verbatim>\<open>admin::roles.create\<close> gives the key \<^verbatim>\<open>canCreate\<close> and \<^verbatim>\<open>admin::roles.create-draft\<close>
  gives \<^verbatim>\<open>canCreateDraft\<close>.
\<close>

theorem getActionName_algorithm:
  "getActionName p =
     concat (map capitalise (split_on CHR ''-'' (last (split_on CHR ''.'' (action p)))))
   \<and> last (split_on CHR ''.'' (action p)) = rev (takeWhile (\<lambda>c. c \<noteq> CHR ''.'') (rev (action p)))
   \<and> getActionName (p\<lparr>action := ''admin::roles.create''\<rparr>) = ''Create''
   \<and> map fst (allowedActions (defaultAllowedActions [p\<lparr>action := ''admin::roles.create''\<rparr>]) None)
       = [''canCreate'']
   \<and> getActionName (p\<lparr>action := ''admin::roles.create-draft''\<rparr>) = ''CreateDraft''
   \<and> map fst (allowedActions (defaultAllowedActions [p\<lparr>action := ''admin::roles.create-draft''\<rparr>]) None)
       = [''canCreateDraft'']"
proof -
  have a: "getActionName (p\<lparr>action := ''admin::roles.create''\<rparr>) = ''Create''"
    by (simp add: getActionName_def slice_from_def capitalise_def toUpperCase_def)
  have b: "getActionName (p\<lparr>action := ''admin::roles.create-draft''\<rparr>) = ''CreateDraft''"
    by (simp add: getActionName_def slice_from_def capitalise_def toUpperCase_def)
  have c: "map fst (allowedActions (defaultAllowedActions [p\<lparr>action := ''admin::roles.create''\<rparr>]) None)
       = [''canCreate'']"
    by (simp add: allowedActions_def defaultAllowedActions_def spread_def a capitalise_def toUpperCase_def)
  have d: "map fst (allowedActions (defaultAllowedActions [p\<lparr>action := ''admin::roles.create-draft''\<rparr>]) None)
       = [''canCreateDraft'']"
    by (simp add: allowedActions_def defaultAllowedActions_def spread_def b capitalise_def toUpperCase_def)
  show ?thesis
    using a b c d by (simp only: getActionName_last last_split_on simp_thms)
qed

text \<open>The algorithm of claim C2 on an action of the content manager.\<close>

theorem getActionName_algorithm_witness:
  "getActionName \<lparr>action = ''plugin::content-manager.explorer.read-all''\<rparr> = ''ReadAll''"
proof -
  have "concat (map capitalise (split_on CHR ''-'' (last (split_on CHR ''.''
          (action \<lparr>action = ''plugin::content-manager.explorer.read-all''\<rparr>))))) = ''ReadAll''"
    by (simp add: capitalise_def toUpperCase_def)
  with getActionName_algorithm [of "\<lparr>action = ''plugin::content-manager.explorer.read-all''\<rparr>"]
  show ?thesis by (simp only:)
qed

section \<open>Claim C3: an action string without a dot\<close>

text \<open>
  Claim C3 as stated, that an action string without a dot has the empty derived
  name, fails: \<^verbatim>\<open>'create'.split('.')\<close> is \<^verbatim>\<open>['create']\<close>, so the last segment is the
  whole string and the derived name is \<^verbatim>\<open>Create\<close>.
\<close>

theorem getActionName_no_dot_counterexample:
  "CHR ''.'' \<notin> set (action \<lparr>action = ''create''\<rparr>)
   \<and> getActionName \<lparr>action = ''create''\<rparr> = ''Create''
   \<and> getActionName \<lparr>action = ''create''\<rparr> \<noteq> []"
  by (simp add: getActionName_def slice_from_def capitalise_def toUpperCase_def)

text \<open>
  Claim C3, amended. For a permission whose action string contains no dot, the
  derived action name is computed from the whole action string (its parts separated
  by \<open>-\<close>, capitalised and concatenated); it is the empty string exactly when the
  action string consists of hyphens only, the empty action string included.
\<close>

theorem getActionName_no_dot:
  "CHR ''.'' \<notin> set (action p) \<Longrightarrow>
     getActionName p = concat (map capitalise (split_on CHR ''-'' (action p)))
     \<and> (getActionName p = [] \<longleftrightarrow> set (action p) \<subseteq> {CHR ''-''})"
  by (simp add: getActionName_last split_on_no_sep concat_capitalise_Nil del: concat_eq_Nil_conv)

text \<open>The amended claim C3 on \<^verbatim>\<open>read-all\<close> and on \<^verbatim>\<open>--\<close>.\<close>

theorem getActionName_no_dot_witness:
  "CHR ''.'' \<notin> set (action \<lparr>action = ''read-all''\<rparr>)
   \<and> getActionName \<lparr>action = ''read-all''\<rparr> = ''ReadAll''
   \<and> getActionName \<lparr>action = ''--''\<rparr> = []"
proof -
  have h1: "CHR ''.'' \<notin> set (action \<lparr>action = ''read-all''\<rparr>)" by simp
  have h2: "CHR ''.'' \<notin> set (action \<lparr>action = ''--''\<rparr>)" by simp
  have "concat (map capitalise (split_on CHR ''-'' (action \<lparr>action = ''read-all''\<rparr>))) = ''ReadAll''"
    by (simp add: capitalise_def toUpperCase_def)
  with getActionName_no_dot [OF h1] getActionName_no_dot [OF h2] h1 show ?thesis
    by (simp add: capitalise_Nil)
qed

section \<open>Claim C10: every action string has a derived name\<close>

text \<open>
  Claim C10. \<open>getActionName\<close> returns a string for every permission: the slice of the
  segments always holds exactly one segment, so the destructuring finds a string.
  For the empty action string the derived name is empty and the key is \<^verbatim>\<open>can\<close>: the
  hook called with that one permission returns the single entry \<^verbatim>\<open>can: false\<close>
  while no result is stored.
\<close>

theorem getActionName_total:
  "(\<exists>a. slice_from (- 1) (split_on CHR ''.'' (action p)) = [a])
   \<and> getActionName (p\<lparr>action := []\<rparr>) = []
   \<and> ''can'' @ capitalise (getActionName (p\<lparr>action := []\<rparr>)) = ''can''
   \<and> ret_allowedActions (fst (useRBAC (PermissionArray [p\<lparr>action := []\<rparr>])
        passedPermissions isLoadingAuth debouncedLocale (st\<lparr>data := None\<rparr>))) = [(''can'', False)]"
proof -
  have e: "getActionName (p\<lparr>action := []\<rparr>) = []"
    by (simp add: getActionName_def slice_from_def capitalise_def)
  then have "allowedActions (defaultAllowedActions [p\<lparr>action := []\<rparr>]) None = [(''can'', False)]"
    by (simp add: allowedActions_def defaultAllowedActions_def spread_def capitalise_def)
  then show ?thesis
    by (simp add: e capitalise_def useRBAC_def actualPermissionsToCheck_def Let_def
        slice_from_last split_on_nonempty)
qed

text \<open>Claim C10 on the first render of a hook.\<close>

theorem getActionName_total_witness:
  "ret_allowedActions (fst (useRBAC (PermissionArray [\<lparr>action = []\<rparr>]) None False None
      ((initial_state :: (unit, unit) hook_state)\<lparr>data := None\<rparr>))) = [(''can'', False)]"
  using getActionName_total [of "\<lparr>action = []\<rparr>" None False None "initial_state :: (unit, unit) hook_state"]
  by simp

section \<open>One render of the hook\<close>

lemma normalized_flag:
  "fst (actualPermissionsToCheck i c) =
     (case i of Omitted \<Rightarrow> [] | PermissionArray ps \<Rightarrow> ps | PermissionRecord groups \<Rightarrow> concat (map snd groups))"
  by (cases i) (simp_all add: actualPermissionsToCheck_def once_def)

lemma useRBAC_return:
  "fst (useRBAC i passed auth loc st) =
     \<lparr>ret_allowedActions =
        allowedActions (defaultAllowedActions (fst (actualPermissionsToCheck i (called st)))) (data st),
      ret_permissions = fst (actualPermissionsToCheck i (called st)),
      ret_isLoading = (isLoading st \<or> auth),
      ret_error = error st\<rparr>"
  by (simp add: useRBAC_def Let_def case_prod_unfold)

lemma ret_permissions_useRBAC:
  "ret_permissions (fst (useRBAC i passed auth loc st)) =
     (case i of Omitted \<Rightarrow> [] | PermissionArray ps \<Rightarrow> ps | PermissionRecord groups \<Rightarrow> concat (map snd groups))"
  by (simp add: useRBAC_return normalized_flag)

lemma ret_allowedActions_useRBAC:
  "ret_allowedActions (fst (useRBAC i passed auth loc st)) =
     allowedActions (defaultAllowedActions (ret_permissions (fst (useRBAC i passed auth loc st)))) (data st)"
  by (simp add: useRBAC_return)

lemma ret_isLoading_useRBAC:
  "ret_isLoading (fst (useRBAC i passed auth loc st)) = (isLoading st \<or> auth)"
  by (simp add: useRBAC_return)

lemma ret_error_useRBAC:
  "ret_error (fst (useRBAC i passed auth loc st)) = error st"
  by (simp add: useRBAC_return)

section \<open>Claim C9: the returned permissions\<close>

text \<open>
  Claim C9. In every state of the hook, loading, resolved or rejected, the
  \<^verbatim>\<open>permissions\<close> field of the returned value is the normalized input: the array as
  given, the concatenation of the values of the object form, and the empty list
  when the argument is left out. No event of the hook changes it: neither a
  render, nor the check resolving, nor the check rejecting.
\<close>

theorem permissions_returned:
  "ret_permissions (fst (useRBAC (PermissionArray ps) passed auth loc st)) = ps
   \<and> ret_permissions (fst (useRBAC (PermissionRecord groups) passed auth loc st)) = concat (map snd groups)
   \<and> ret_permissions (fst (useRBAC Omitted passed auth loc st)) = []
   \<and> ret_permissions (fst (useRBAC i passed auth loc (step ev st))) =
       ret_permissions (fst (useRBAC i passed auth loc st))"
  by (simp add: ret_permissions_useRBAC)

text \<open>Claim C9 for the object form, after a check of another input has been rejected.\<close>

theorem permissions_returned_witness:
  "ret_permissions (fst (useRBAC (PermissionRecord [(''roles'', [read_permission]), (''users'', [create_permission, update_permission])])
       None False None
       (step (Rejected 0 ''failed'') (step (Render (PermissionArray [read_permission]) None False None) initial_state))))
     = [read_permission, create_permission, update_permission]"
  using permissions_returned [of "[]" None False None
      "step (Rejected 0 ''failed'') (step (Render (PermissionArray [read_permission]) None False None) initial_state)"
      "[(''roles'', [read_permission]), (''users'', [create_permission, update_permission])]"]
  by simp


section \<open>Claim C7: the deprecated object form\<close>

lemma useRBAC_state:
  "fst (snd (useRBAC i passed auth loc st)) =
     (let actual = fst (actualPermissionsToCheck i (called st));
          st1 = st\<lparr>called := fst (snd (actualPermissionsToCheck i (called st)))\<rparr>;
          st2 = (if permssionsChecked st \<noteq> Some actual \<or> localeChecked st \<noteq> loc
                 then st1\<lparr>isLoading := True, data := None, error := None,
                          pending := pending st1 @ [(actual, passed)]\<rparr>
                 else st1)
      in st2\<lparr>permssionsChecked := Some actual, localeChecked := loc\<rparr>)"
  by (simp add: useRBAC_def Let_def case_prod_unfold)

text \<open>
  The two forms differ in the call of \<open>warnOnce\<close> only: the returned value does not
  read its flag, and every event leaves the same state behind, that flag apart.
\<close>

lemma flattened_return:
  "fst (useRBAC (flattened i) passed auth loc (st\<lparr>called := c\<rparr>)) = fst (useRBAC i passed auth loc st)"
  by (cases i) (simp_all add: useRBAC_return normalized_flag)

lemma flattened_step_upto:
  "(step (flattened_event ev) (st\<lparr>called := c\<rparr>))\<lparr>called := x\<rparr> = (step ev st)\<lparr>called := x\<rparr>"
proof (cases ev)
  case (Render i passed auth loc)
  then show ?thesis
    by (cases i) (simp_all add: useRBAC_state normalized_flag Let_def)
next
  case (Resolved k res)
  then show ?thesis
    by (cases res) (simp_all add: finally_callback_def then_callback_def settle_def)
next
  case (Rejected k err)
  then show ?thesis
    by (simp add: finally_callback_def catch_callback_def settle_def)
qed

lemma flattened_step:
  "\<exists>c'. step (flattened_event ev) (st\<lparr>called := c\<rparr>) = (step ev st)\<lparr>called := c'\<rparr>"
proof -
  let ?t = "step (flattened_event ev) (st\<lparr>called := c\<rparr>)"
  have "?t = ?t\<lparr>called := called ?t\<rparr>" by simp
  also have "\<dots> = (step ev st)\<lparr>called := called ?t\<rparr>" by (rule flattened_step_upto)
  finally show ?thesis by (rule exI)
qed

lemma flattened_returned:
  "returned (map flattened_event evs) (st\<lparr>called := c\<rparr>) = returned evs st"
proof (induction evs arbitrary: st c)
  case Nil
  show ?case by simp
next
  case (Cons ev evs)
  obtain c' where c': "step (flattened_event ev) (st\<lparr>called := c\<rparr>) = (step ev st)\<lparr>called := c'\<rparr>"
    using flattened_step by blast
  have tail: "returned (map flattened_event evs) (step (flattened_event ev) (st\<lparr>called := c\<rparr>)) =
      returned evs (step ev st)"
    unfolding c' by (rule Cons.IH)
  show ?case
  proof (cases ev)
    case (Render i passed auth loc)
    with tail show ?thesis by (simp add: flattened_return del: step.simps)
  next
    case (Resolved k res)
    with tail show ?thesis by (simp del: step.simps)
  next
    case (Rejected k err)
    with tail show ?thesis by (simp del: step.simps)
  qed
qed

text \<open>
  Claim C7. A render with the object form returns the same value, so the same
  \<^verbatim>\<open>allowedActions\<close> and \<^verbatim>\<open>permissions\<close>, as a render in the same state with the array of
  the flattened values; and along every sequence of events the hook returns the
  same values when every argument is given in array form instead.
\<close>

theorem record_form_as_flattened_array:
  "fst (useRBAC (PermissionRecord groups) passed auth loc st) =
     fst (useRBAC (PermissionArray (concat (map snd groups))) passed auth loc st)
   \<and> returned (map flattened_event evs) st = returned evs st"
  using flattened_return [where i = "PermissionRecord groups" and st = st and c = "called st"]
    flattened_returned [where st = st and c = "called st"]
  by simp

text \<open>Claim C7 on two renders of two groups, the check resolving in between.\<close>

theorem record_form_as_flattened_array_witness:
  "returned [Render (PermissionArray [read_permission, create_permission]) None False None,
             Resolved 0 (Some [read_permission]),
             Render (PermissionArray [read_permission, create_permission]) None False None]
     (initial_state :: (unit, string) hook_state) =
   returned [Render (PermissionRecord [(''roles'', [read_permission]), (''users'', [create_permission])]) None False None,
             Resolved 0 (Some [read_permission]),
             Render (PermissionRecord [(''roles'', [read_permission]), (''users'', [create_permission])]) None False None]
     (initial_state :: (unit, string) hook_state)"
  using record_form_as_flattened_array
    [where st = "initial_state :: (unit, string) hook_state" and evs =
      "[Render (PermissionRecord [(''roles'', [read_permission]), (''users'', [create_permission])]) None False None,
             Resolved 0 (Some [read_permission]),
             Render (PermissionRecord [(''roles'', [read_permission]), (''users'', [create_permission])]) None False None]"]
  by (simp del: returned.simps)

section \<open>Claim C6: the flags after the check has resolved\<close>

lemma allowedActions_lookup_granted:
  "map_of (allowedActions (defaultAllowedActions ps) (Some (grantedActions granted))) (''can'' @ n) =
     (if n \<in> getActionName ` set granted then Some True
      else if n \<in> getActionName ` set ps then Some False else None)"
proof -
  have "case Some (grantedActions granted) of None \<Rightarrow> True
        | Some r \<Rightarrow> \<forall>n \<in> fst ` set r. capitalise n = n"
    by (auto simp: grantedActions_keys capitalise_getActionName)
  then have "map_of (allowedActions (defaultAllowedActions ps) (Some (grantedActions granted))) (''can'' @ n) =
           (case (case Some (grantedActions granted) of None \<Rightarrow> None | Some r \<Rightarrow> map_of (rev r) n) of
              Some b \<Rightarrow> Some b
            | None \<Rightarrow> if n \<in> getActionName ` set ps then Some False else None)"
    by (rule allowedActions_lookup)
  also have "\<dots> = (if n \<in> getActionName ` set granted then Some True
      else if n \<in> getActionName ` set ps then Some False else None)"
    by (simp add: map_of_rev_distinct grantedActions_distinct grantedActions_lookup)
  finally show ?thesis .
qed

lemma allowedActions_lookup_default:
  "map_of (allowedActions (defaultAllowedActions ps) None) (''can'' @ n) =
     (if n \<in> getActionName ` set ps then Some False else None)"
proof -
  have "case None :: flags option of None \<Rightarrow> True | Some r \<Rightarrow> \<forall>n \<in> fst ` set r. capitalise n = n"
    by simp
  then have "map_of (allowedActions (defaultAllowedActions ps) None) (''can'' @ n) =
           (case (case None :: flags option of None \<Rightarrow> None | Some r \<Rightarrow> map_of (rev r) n) of
              Some b \<Rightarrow> Some b
            | None \<Rightarrow> if n \<in> getActionName ` set ps then Some False else None)"
    by (rule allowedActions_lookup)
  then show ?thesis by (simp only: option.case)
qed

lemma allowedActions_key_cases:
  assumes "map_of (allowedActions (defaultAllowedActions ps) d) k = Some v"
  obtains n where "k = ''can'' @ capitalise n"
    and "n \<in> getActionName ` set ps \<union> (case d of None \<Rightarrow> {} | Some r \<Rightarrow> fst ` set r)"
proof -
  from assms have "(k, v) \<in> set (allowedActions (defaultAllowedActions ps) d)"
    by (rule map_of_SomeD)
  then have "k \<in> fst ` set (allowedActions (defaultAllowedActions ps) d)"
    by force
  then have "k \<in> (\<lambda>n. ''can'' @ capitalise n) `
      (getActionName ` set ps \<union> (case d of None \<Rightarrow> {} | Some r \<Rightarrow> fst ` set r))"
    by (simp only: allowedActions_keys defaultAllowedActions_keys)
  then show thesis
    using that by blast
qed

lemma resolved_data:
  "k < length (pending st) \<Longrightarrow> data (step (Resolved k (Some granted)) st) = Some (grantedActions granted)"
  by (simp add: finally_callback_def then_callback_def settle_def)

text \<open>
  Claim C6. After a pending check has resolved with a list of granted permissions,
  the keys of \<^verbatim>\<open>allowedActions\<close> whose flag is true are exactly the keys of the derived
  action names of the granted permissions, and the flag of every requested
  permission is true if its derived action name is one of a granted permission and
  false otherwise. This holds for every list the check resolves with, a subset of
  the input in particular.
\<close>

theorem granted_actions_true:
  assumes "k < length (pending st)"
    and "ret = fst (useRBAC i passed auth loc (step (Resolved k (Some granted)) st))"
  shows "{key. map_of (ret_allowedActions ret) key = Some True} =
           (\<lambda>n. ''can'' @ n) ` getActionName ` set granted
         \<and> (\<forall>p \<in> set (ret_permissions ret).
              map_of (ret_allowedActions ret) (''can'' @ getActionName p) =
                Some (getActionName p \<in> getActionName ` set granted))"
proof -
  let ?ps = "ret_permissions ret"
  have al: "ret_allowedActions ret =
      allowedActions (defaultAllowedActions ?ps) (Some (grantedActions granted))"
    using assms by (simp only: ret_allowedActions_useRBAC resolved_data)
  have L: "map_of (ret_allowedActions ret) (''can'' @ n) =
     (if n \<in> getActionName ` set granted then Some True
      else if n \<in> getActionName ` set ?ps then Some False else None)" for n
    unfolding al by (rule allowedActions_lookup_granted)
  have "map_of (ret_allowedActions ret) key = Some True \<longleftrightarrow>
        key \<in> (\<lambda>n. ''can'' @ n) ` getActionName ` set granted" for key
  proof
    assume t: "map_of (ret_allowedActions ret) key = Some True"
    then obtain n where k: "key = ''can'' @ capitalise n"
      and n: "n \<in> getActionName ` set ?ps \<union> getActionName ` set granted"
      unfolding al by (rule allowedActions_key_cases) (simp add: grantedActions_keys)
    from n have cap: "capitalise n = n" by (auto simp: capitalise_getActionName)
    from t k cap have "map_of (ret_allowedActions ret) (''can'' @ n) = Some True" by simp
    with L [of n] have "n \<in> getActionName ` set granted" by (simp split: if_splits)
    with k cap show "key \<in> (\<lambda>n. ''can'' @ n) ` getActionName ` set granted" by simp
  next
    assume "key \<in> (\<lambda>n. ''can'' @ n) ` getActionName ` set granted"
    then obtain n where "key = ''can'' @ n" and "n \<in> getActionName ` set granted" by blast
    with L [of n] show "map_of (ret_allowedActions ret) key = Some True" by simp
  qed
  then have "{key. map_of (ret_allowedActions ret) key = Some True} =
           (\<lambda>n. ''can'' @ n) ` getActionName ` set granted"
    by blast
  moreover have "\<forall>p \<in> set ?ps.
              map_of (ret_allowedActions ret) (''can'' @ getActionName p) =
                Some (getActionName p \<in> getActionName ` set granted)"
  proof
    fix p assume "p \<in> set ?ps"
    with L [of "getActionName p"] show "map_of (ret_allowedActions ret) (''can'' @ getActionName p) =
                Some (getActionName p \<in> getActionName ` set granted)" by simp
  qed
  ultimately show ?thesis by blast
qed


text \<open>Claim C6 for the input \<^verbatim>\<open>read\<close>, \<^verbatim>\<open>create\<close> of which \<^verbatim>\<open>read\<close> is granted.\<close>

theorem granted_actions_true_witness:
  "map_of (ret_allowedActions (fst (useRBAC (PermissionArray [read_permission, create_permission]) None False None
      (step (Resolved 0 (Some [read_permission]))
        (step (Render (PermissionArray [read_permission, create_permission]) None False None)
          (initial_state :: (unit, string) hook_state)))))) ''canRead'' = Some True
   \<and> map_of (ret_allowedActions (fst (useRBAC (PermissionArray [read_permission, create_permission]) None False None
      (step (Resolved 0 (Some [read_permission]))
        (step (Render (PermissionArray [read_permission, create_permission]) None False None)
          (initial_state :: (unit, string) hook_state)))))) ''canCreate'' = Some False"
proof -
  let ?st = "step (Render (PermissionArray [read_permission, create_permission]) None False None)
          (initial_state :: (unit, string) hook_state)"
  have k: "0 < length (pending ?st)"
    by (simp add: useRBAC_state normalized_flag initial_state_def Let_def)
  have r: "getActionName read_permission = ''Read''"
    by (simp add: read_permission_def getActionName_def slice_from_def capitalise_def toUpperCase_def)
  have c: "getActionName create_permission = ''Create''"
    by (simp add: create_permission_def getActionName_def slice_from_def capitalise_def toUpperCase_def)
  show ?thesis
    using granted_actions_true [OF k refl, of "PermissionArray [read_permission, create_permission]"
        None False None "[read_permission]"]
    by (simp add: ret_permissions_useRBAC r c)
qed

section \<open>Claim C1: the keys of the returned flags\<close>

lemma can_keys: "(\<lambda>n. ''can'' @ capitalise n) ` getActionName ` A = (\<lambda>n. ''can'' @ n) ` getActionName ` A"
  by (simp add: image_image capitalise_getActionName)

text \<open>
  Claim C1, amended. While no result is stored (the check is loading or was
  rejected), and when the stored result was built from a list of permissions whose
  derived action names all occur among those of the input (as after the check of
  this input has resolved with a subset of it), \<^verbatim>\<open>allowedActions\<close> has exactly one
  key per distinct derived action name of the input, the name prefixed with
  \<^verbatim>\<open>can\<close>: never more, never fewer.
\<close>

theorem allowedActions_keys_of_input:
  assumes "ret = fst (useRBAC i passed auth loc st)"
    and "data st = None \<or>
         data st = Some (grantedActions granted) \<and>
         getActionName ` set granted \<subseteq> getActionName ` set (ret_permissions ret)"
  shows "fst ` set (ret_allowedActions ret) = (\<lambda>n. ''can'' @ n) ` getActionName ` set (ret_permissions ret)
         \<and> distinct (map fst (ret_allowedActions ret))
         \<and> length (ret_allowedActions ret) = card (getActionName ` set (ret_permissions ret))"
proof -
  let ?ps = "ret_permissions ret"
  have al: "ret_allowedActions ret = allowedActions (defaultAllowedActions ?ps) (data st)"
    using assms(1) by (simp only: ret_allowedActions_useRBAC)
  have "getActionName ` set ?ps \<union> (case data st of None \<Rightarrow> {} | Some r \<Rightarrow> fst ` set r) =
        getActionName ` set ?ps"
    using assms(2) by (auto simp: grantedActions_keys)
  then have keys: "fst ` set (ret_allowedActions ret) = (\<lambda>n. ''can'' @ n) ` getActionName ` set ?ps"
    by (simp only: al allowedActions_keys defaultAllowedActions_keys can_keys)
  have dist: "distinct (map fst (ret_allowedActions ret))"
    by (simp only: al allowedActions_distinct)
  have "length (ret_allowedActions ret) = card (set (map fst (ret_allowedActions ret)))"
    using distinct_card [OF dist] by simp
  also have "\<dots> = card ((\<lambda>n. ''can'' @ n) ` getActionName ` set ?ps)"
    using keys by simp
  also have "\<dots> = card (getActionName ` set ?ps)"
    by (rule card_image) (simp add: inj_on_def)
  finally show ?thesis using keys dist by blast
qed

text \<open>The amended claim C1 for an input that names \<^verbatim>\<open>read\<close> twice, after \<^verbatim>\<open>read\<close> was granted.\<close>

theorem allowedActions_keys_of_input_witness:
  "fst ` set (ret_allowedActions (fst (useRBAC (PermissionArray [read_permission, create_permission, read_permission])
      None False None
      (step (Resolved 0 (Some [read_permission]))
        (step (Render (PermissionArray [read_permission, create_permission, read_permission]) None False None)
          (initial_state :: (unit, string) hook_state)))))) = {''canRead'', ''canCreate''}
   \<and> length (ret_allowedActions (fst (useRBAC (PermissionArray [read_permission, create_permission, read_permission])
      None False None
      (step (Resolved 0 (Some [read_permission]))
        (step (Render (PermissionArray [read_permission, create_permission, read_permission]) None False None)
          (initial_state :: (unit, string) hook_state)))))) = 2"
proof -
  let ?i = "PermissionArray [read_permission, create_permission, read_permission]"
  let ?started = "step (Render ?i None False None) (initial_state :: (unit, string) hook_state)"
  let ?st = "step (Resolved 0 (Some [read_permission])) ?started"
  have k: "0 < length (pending ?started)"
    by (simp add: useRBAC_state normalized_flag initial_state_def Let_def)
  have r: "getActionName read_permission = ''Read''"
    by (simp add: read_permission_def getActionName_def slice_from_def capitalise_def toUpperCase_def)
  have c: "getActionName create_permission = ''Create''"
    by (simp add: create_permission_def getActionName_def slice_from_def capitalise_def toUpperCase_def)
  have h: "data ?st = None \<or>
         data ?st = Some (grantedActions [read_permission]) \<and>
         getActionName ` set [read_permission] \<subseteq>
           getActionName ` set (ret_permissions (fst (useRBAC ?i None False None ?st)))"
    using k by (simp add: resolved_data ret_permissions_useRBAC del: step.simps)
  have "card {''Read'', ''Create''} = 2" by simp
  with allowedActions_keys_of_input [OF refl h] show ?thesis
    by (simp add: ret_permissions_useRBAC r c insert_commute del: step.simps)
qed

text \<open>
  Claim C1 as stated, for every list the check resolves with, fails. The stored
  result is spread over the default, so its keys are added: for the input \<^verbatim>\<open>read\<close>
  and a check that resolves with \<^verbatim>\<open>create\<close> the keys are \<^verbatim>\<open>canRead\<close> and \<^verbatim>\<open>canCreate\<close>,
  where the input alone gives \<^verbatim>\<open>canRead\<close>. The same happens when the check of an
  earlier input \<^verbatim>\<open>read\<close>, \<^verbatim>\<open>create\<close> resolves with its subset \<^verbatim>\<open>create\<close> after the input
  has changed to \<^verbatim>\<open>read\<close>.
\<close>

theorem allowedActions_keys_counterexample:
  "fst ` set (ret_allowedActions (fst (useRBAC (PermissionArray [read_permission]) None False None
      (step (Resolved 0 (Some [create_permission]))
        (step (Render (PermissionArray [read_permission]) None False None)
          (initial_state :: (unit, string) hook_state)))))) = {''canRead'', ''canCreate''}
   \<and> (\<lambda>n. ''can'' @ capitalise n) ` getActionName ` set [read_permission] = {''canRead''}
   \<and> fst ` set (ret_allowedActions (fst (useRBAC (PermissionArray [read_permission]) None False None
      (run [Render (PermissionArray [read_permission, create_permission]) None False None,
            Render (PermissionArray [read_permission]) None False None,
            Resolved 0 (Some [create_permission])]
          (initial_state :: (unit, string) hook_state))))) = {''canRead'', ''canCreate''}
   \<and> {''canRead'', ''canCreate''} \<noteq> {''canRead''}"
  by (simp add: useRBAC_def actualPermissionsToCheck_def initial_state_def Let_def
      finally_callback_def then_callback_def settle_def
      allowedActions_def defaultAllowedActions_def grantedActions_def spread_def
      read_permission_def create_permission_def
      getActionName_def slice_from_def capitalise_def toUpperCase_def insert_commute)

section \<open>Claim C8: between the start of a check and its end\<close>

text \<open>
  A render has started a check when it has added a call to the unsettled ones. It
  has then cleared the result and the error and set the loading flag. Renders keep
  the state cleared, and every event but a check resolving with a list keeps the
  result empty.
\<close>

lemma render_started:
  assumes "pending (step (Render i passed auth loc) st) = pending st @ [call]"
  shows "isLoading (step (Render i passed auth loc) st)
         \<and> data (step (Render i passed auth loc) st) = None
         \<and> error (step (Render i passed auth loc) st) = None"
proof (cases "permssionsChecked st \<noteq> Some (fst (actualPermissionsToCheck i (called st)))
    \<or> localeChecked st \<noteq> loc")
  case True
  then show ?thesis by (simp add: useRBAC_state Let_def)
next
  case False
  then have "pending (step (Render i passed auth loc) st) = pending st"
    by (simp add: useRBAC_state Let_def)
  with assms show ?thesis by simp
qed

lemma render_keeps_cleared:
  "isLoading st \<and> data st = None \<Longrightarrow>
     isLoading (step (Render i passed auth loc) st) \<and> data (step (Render i passed auth loc) st) = None"
  by (simp add: useRBAC_state Let_def)

lemma renders_keep_cleared:
  "\<forall>ev \<in> set evs. is_render ev \<Longrightarrow> isLoading st \<and> data st = None \<Longrightarrow>
     isLoading (run evs st) \<and> data (run evs st) = None"
proof (induction evs arbitrary: st)
  case Nil
  then show ?case by simp
next
  case (Cons ev evs)
  from Cons.prems obtain i passed auth loc where ev: "ev = Render i passed auth loc"
    by (cases ev) auto
  have "isLoading (step ev st) \<and> data (step ev st) = None"
    unfolding ev using Cons.prems(2) by (rule render_keeps_cleared)
  with Cons show ?case by simp
qed

lemma step_keeps_no_result:
  "\<not> stores_result ev \<Longrightarrow> data st = None \<Longrightarrow> data (step ev st) = None"
  by (cases ev rule: stores_result.cases)
    (simp_all add: useRBAC_state Let_def finally_callback_def then_callback_def
      catch_callback_def settle_def)

lemma run_keeps_no_result:
  "\<forall>ev \<in> set evs. \<not> stores_result ev \<Longrightarrow> data st = None \<Longrightarrow> data (run evs st) = None"
  by (induction evs arbitrary: st) (simp_all add: step_keeps_no_result del: step.simps)

lemma allowedActions_default_map:
  "map_of (allowedActions (defaultAllowedActions ps) None) =
     (\<lambda>key. if key \<in> (\<lambda>n. ''can'' @ n) ` getActionName ` set ps then Some False else None)"
proof
  fix key
  show "map_of (allowedActions (defaultAllowedActions ps) None) key =
     (if key \<in> (\<lambda>n. ''can'' @ n) ` getActionName ` set ps then Some False else None)"
  proof (cases "key \<in> (\<lambda>n. ''can'' @ n) ` getActionName ` set ps")
    case True
    then obtain n where "key = ''can'' @ n" and "n \<in> getActionName ` set ps" by blast
    with allowedActions_lookup_default [of ps n] True show ?thesis by simp
  next
    case False
    have "fst ` set (allowedActions (defaultAllowedActions ps) None) =
        (\<lambda>n. ''can'' @ n) ` getActionName ` set ps"
      by (simp only: allowedActions_keys defaultAllowedActions_keys can_keys option.case Un_empty_right)
    with False have "key \<notin> fst ` set (allowedActions (defaultAllowedActions ps) None)"
      by simp
    then have "map_of (allowedActions (defaultAllowedActions ps) None) key = None"
      by (simp add: map_of_eq_None_iff)
    with False show ?thesis by simp
  qed
qed

lemma loading_after_start:
  assumes "pending (step (Render i passed auth loc) st) = pending st @ [call]"
    and "\<forall>ev \<in> set evs. is_render ev"
    and "ret = fst (useRBAC i' passed' auth' loc' (run evs (step (Render i passed auth loc) st)))"
  shows "map_of (ret_allowedActions ret) =
           (\<lambda>key. if key \<in> (\<lambda>n. ''can'' @ n) ` getActionName ` set (ret_permissions ret)
                   then Some False else None)
         \<and> (\<forall>p \<in> set (ret_permissions ret).
              map_of (ret_allowedActions ret) (''can'' @ getActionName p) = Some False)
         \<and> ret_isLoading ret"
proof -
  let ?st = "run evs (step (Render i passed auth loc) st)"
  from assms(1) have "isLoading (step (Render i passed auth loc) st)
      \<and> data (step (Render i passed auth loc) st) = None"
    by (simp only: render_started)
  with assms(2) have cleared: "isLoading ?st \<and> data ?st = None"
    by (rule renders_keep_cleared)
  then have al: "ret_allowedActions ret = allowedActions (defaultAllowedActions (ret_permissions ret)) None"
    using assms(3) by (simp only: ret_allowedActions_useRBAC)
  have m: "map_of (ret_allowedActions ret) =
           (\<lambda>key. if key \<in> (\<lambda>n. ''can'' @ n) ` getActionName ` set (ret_permissions ret)
                   then Some False else None)"
    unfolding al by (rule allowedActions_default_map)
  have "\<forall>p \<in> set (ret_permissions ret).
              map_of (ret_allowedActions ret) (''can'' @ getActionName p) = Some False"
    unfolding al by (simp only: allowedActions_lookup_default) simp
  moreover have "ret_isLoading ret"
    using cleared assms(3) by (simp only: ret_isLoading_useRBAC simp_thms)
  ultimately show ?thesis using m by blast
qed

lemma loading_first_render:
  assumes "ret = fst (useRBAC i passed auth loc initial_state)"
  shows "map_of (ret_allowedActions ret) =
           (\<lambda>key. if key \<in> (\<lambda>n. ''can'' @ n) ` getActionName ` set (ret_permissions ret)
                   then Some False else None)
         \<and> (\<forall>p \<in> set (ret_permissions ret).
              map_of (ret_allowedActions ret) (''can'' @ getActionName p) = Some False)
         \<and> ret_isLoading ret"
proof -
  have al: "ret_allowedActions ret = allowedActions (defaultAllowedActions (ret_permissions ret)) None"
    using assms by (simp add: ret_allowedActions_useRBAC initial_state_def)
  have m: "map_of (ret_allowedActions ret) =
           (\<lambda>key. if key \<in> (\<lambda>n. ''can'' @ n) ` getActionName ` set (ret_permissions ret)
                   then Some False else None)"
    unfolding al by (rule allowedActions_default_map)
  have "\<forall>p \<in> set (ret_permissions ret).
              map_of (ret_allowedActions ret) (''can'' @ getActionName p) = Some False"
    unfolding al by (simp only: allowedActions_lookup_default) simp
  moreover have "ret_isLoading ret"
    using assms by (simp add: ret_isLoading_useRBAC initial_state_def)
  ultimately show ?thesis using m by blast
qed

text \<open>
  Claim C8, amended. The first render of a hook instance, and every render that
  follows a render whose effect has started a check, for as long as no call of the
  external check made by this instance has settled, through any number of renders,
  those that change the input or the locale and start a further check included,
  return the all-false default of the rendered input, so that every requested
  action's flag is false, and report \<^verbatim>\<open>isLoading\<close> true. The render whose effect starts
  a check returns the value computed from the state before the effect: it is one of
  these renders when it is the first render or follows a started check with no call
  settled, and is not covered otherwise.
\<close>

theorem loading_until_settled:
  "(first = fst (useRBAC i passed auth loc initial_state) \<longrightarrow>
      map_of (ret_allowedActions first) =
        (\<lambda>key. if key \<in> (\<lambda>n. ''can'' @ n) ` getActionName ` set (ret_permissions first)
                then Some False else None)
      \<and> (\<forall>p \<in> set (ret_permissions first).
           map_of (ret_allowedActions first) (''can'' @ getActionName p) = Some False)
      \<and> ret_isLoading first)
   \<and> (pending (step (Render i passed auth loc) st) = pending st @ [call] \<longrightarrow>
      (\<forall>ev \<in> set evs. is_render ev) \<longrightarrow>
      ret = fst (useRBAC i' passed' auth' loc' (run evs (step (Render i passed auth loc) st))) \<longrightarrow>
      map_of (ret_allowedActions ret) =
        (\<lambda>key. if key \<in> (\<lambda>n. ''can'' @ n) ` getActionName ` set (ret_permissions ret)
                then Some False else None)
      \<and> (\<forall>p \<in> set (ret_permissions ret).
           map_of (ret_allowedActions ret) (''can'' @ getActionName p) = Some False)
      \<and> ret_isLoading ret)"
proof (intro conjI impI)
  assume r0: "first = fst (useRBAC i passed auth loc initial_state)"
  note fr = loading_first_render [OF r0]
  from fr show "map_of (ret_allowedActions first) =
        (\<lambda>key. if key \<in> (\<lambda>n. ''can'' @ n) ` getActionName ` set (ret_permissions first)
                then Some False else None)" by (rule conjunct1)
  from fr show "\<forall>p \<in> set (ret_permissions first).
           map_of (ret_allowedActions first) (''can'' @ getActionName p) = Some False"
    by (rule conjunct2 [THEN conjunct1])
  from fr show "ret_isLoading first" by (rule conjunct2 [THEN conjunct2])
next
  assume h: "pending (step (Render i passed auth loc) st) = pending st @ [call]"
    "\<forall>ev \<in> set evs. is_render ev"
    "ret = fst (useRBAC i' passed' auth' loc' (run evs (step (Render i passed auth loc) st)))"
  note after = loading_after_start [OF h]
  from after show "map_of (ret_allowedActions ret) =
        (\<lambda>key. if key \<in> (\<lambda>n. ''can'' @ n) ` getActionName ` set (ret_permissions ret)
                then Some False else None)" by (rule conjunct1)
  from after show "\<forall>p \<in> set (ret_permissions ret).
           map_of (ret_allowedActions ret) (''can'' @ getActionName p) = Some False"
    by (rule conjunct2 [THEN conjunct1])
  from after show "ret_isLoading ret" by (rule conjunct2 [THEN conjunct2])
qed

lemma getActionName_read: "getActionName read_permission = ''Read''"
  by (simp add: read_permission_def getActionName_def slice_from_def capitalise_def toUpperCase_def)

lemma getActionName_create: "getActionName create_permission = ''Create''"
  by (simp add: create_permission_def getActionName_def slice_from_def capitalise_def toUpperCase_def)

text \<open>
  The amended claim C8: the first render of a hook with the input \<^verbatim>\<open>read\<close>, \<^verbatim>\<open>create\<close>,
  which starts a check; then the hook renders again and the input changes to
  \<^verbatim>\<open>read\<close>, and the render after these.
\<close>

theorem loading_until_settled_witness:
  "map_of (ret_allowedActions (fst (useRBAC (PermissionArray [read_permission, create_permission]) None False None
      (initial_state :: (unit, string) hook_state)))) ''canCreate'' = Some False
   \<and> ret_isLoading (fst (useRBAC (PermissionArray [read_permission, create_permission]) None False None
      (initial_state :: (unit, string) hook_state)))
   \<and> map_of (ret_allowedActions (fst (useRBAC (PermissionArray [read_permission]) None False None
      (run [Render (PermissionArray [read_permission, create_permission]) None False None,
            Render (PermissionArray [read_permission]) None False None]
        (step (Render (PermissionArray [read_permission, create_permission]) None False None)
          (initial_state :: (unit, string) hook_state)))))) ''canRead'' = Some False
   \<and> ret_isLoading (fst (useRBAC (PermissionArray [read_permission]) None False None
      (run [Render (PermissionArray [read_permission, create_permission]) None False None,
            Render (PermissionArray [read_permission]) None False None]
        (step (Render (PermissionArray [read_permission, create_permission]) None False None)
          (initial_state :: (unit, string) hook_state)))))"
proof -
  let ?i = "PermissionArray [read_permission, create_permission] :: unit permissionsToCheck"
  let ?evs = "[Render ?i None False None, Render (PermissionArray [read_permission]) None False None]
      :: (unit, string) event list"
  let ?init = "initial_state :: (unit, string) hook_state"
  have h1: "pending (step (Render ?i None False None) ?init) =
      pending ?init @ [([read_permission, create_permission], None)]"
    by (simp add: useRBAC_state normalized_flag initial_state_def Let_def)
  have h2: "\<forall>ev \<in> set ?evs. is_render ev" by simp
  note inst = loading_until_settled
    [where first = "fst (useRBAC ?i None False None ?init)"
       and i = ?i and passed = None and auth = False and loc = None and st = ?init
       and call = "([read_permission, create_permission], None)" and evs = ?evs
       and i' = "PermissionArray [read_permission]" and passed' = None and auth' = False and loc' = None
       and ret = "fst (useRBAC (PermissionArray [read_permission]) None False None
          (run ?evs (step (Render ?i None False None) ?init)))"]
  from inst h1 h2 show ?thesis
    by (simp add: ret_permissions_useRBAC getActionName_read getActionName_create
        del: step.simps run.simps)
qed

text \<open>
  Claim C8 as stated, for every state from the start of a check until it completes,
  fails in two ways. Nothing cancels an earlier call: a check of \<^verbatim>\<open>read\<close> is started;
  the input changes to \<^verbatim>\<open>read\<close>, \<^verbatim>\<open>create\<close>, which clears the state and starts a second
  check; then the first check resolves with \<^verbatim>\<open>read\<close>. The second check is still
  unsettled, and the hook returns \<^verbatim>\<open>canRead: true\<close> and \<^verbatim>\<open>isLoading: false\<close>. And the
  effect clears the state only after the render has returned: when a check of \<^verbatim>\<open>read\<close>
  has resolved with \<^verbatim>\<open>read\<close> and the input changes to \<^verbatim>\<open>read\<close>, \<^verbatim>\<open>create\<close>, the render that
  starts the check of the new input returns \<^verbatim>\<open>canRead: true\<close> and \<^verbatim>\<open>isLoading: false\<close>.
\<close>

theorem loading_until_settled_counterexample:
  "pending (run [Render (PermissionArray [read_permission]) None False None,
                 Render (PermissionArray [read_permission, create_permission]) None False None,
                 Resolved 0 (Some [read_permission])]
             (initial_state :: (unit, string) hook_state)) = [([read_permission, create_permission], None)]
   \<and> map_of (ret_allowedActions (fst (useRBAC (PermissionArray [read_permission, create_permission]) None False None
        (run [Render (PermissionArray [read_permission]) None False None,
              Render (PermissionArray [read_permission, create_permission]) None False None,
              Resolved 0 (Some [read_permission])]
          (initial_state :: (unit, string) hook_state))))) ''canRead'' = Some True
   \<and> \<not> ret_isLoading (fst (useRBAC (PermissionArray [read_permission, create_permission]) None False None
        (run [Render (PermissionArray [read_permission]) None False None,
              Render (PermissionArray [read_permission, create_permission]) None False None,
              Resolved 0 (Some [read_permission])]
          (initial_state :: (unit, string) hook_state))))
   \<and> pending (step (Render (PermissionArray [read_permission, create_permission]) None False None)
        (run [Render (PermissionArray [read_permission]) None False None,
              Resolved 0 (Some [read_permission])]
          (initial_state :: (unit, string) hook_state))) = [([read_permission, create_permission], None)]
   \<and> map_of (ret_allowedActions (fst (useRBAC (PermissionArray [read_permission, create_permission]) None False None
        (run [Render (PermissionArray [read_permission]) None False None,
              Resolved 0 (Some [read_permission])]
          (initial_state :: (unit, string) hook_state))))) ''canRead'' = Some True
   \<and> \<not> ret_isLoading (fst (useRBAC (PermissionArray [read_permission, create_permission]) None False None
        (run [Render (PermissionArray [read_permission]) None False None,
              Resolved 0 (Some [read_permission])]
          (initial_state :: (unit, string) hook_state))))"
  by (simp add: useRBAC_def actualPermissionsToCheck_def initial_state_def Let_def
      finally_callback_def then_callback_def settle_def
      allowedActions_def defaultAllowedActions_def grantedActions_def spread_def
      getActionName_read getActionName_create capitalise_def toUpperCase_def)

section \<open>Claim C5: a check that rejects\<close>

lemma rejected_state:
  "k < length (pending st) \<Longrightarrow>
     error (step (Rejected k e) st) = Some e \<and> \<not> isLoading (step (Rejected k e) st)
     \<and> data (step (Rejected k e) st) = data st"
  by (simp add: finally_callback_def catch_callback_def settle_def)

text \<open>
  Claim C5, amended. When a check rejects with \<open>e\<close>, whatever happened before, the
  \<^verbatim>\<open>error\<close> cell and the returned \<^verbatim>\<open>error\<close> are \<open>e\<close> and the \<^verbatim>\<open>isLoading\<close> cell is false,
  so that the reported \<^verbatim>\<open>isLoading\<close> is the loading flag of the auth store. The
  rejection stores no result and leaves the stored one as it is: if no check has
  resolved with a list since a render last started a check, \<^verbatim>\<open>allowedActions\<close> is the
  all-false default keyed by the derived action names of the input.
\<close>

theorem rejected_check:
  assumes "k < length (pending st)"
    and "st' = step (Rejected k e) st"
    and "ret = fst (useRBAC i' passed' auth' loc' st')"
  shows "error st' = Some e \<and> \<not> isLoading st' \<and> data st' = data st
         \<and> ret_error ret = Some e \<and> ret_isLoading ret = auth'
         \<and> ((\<exists>st0 i passed auth loc call evs.
                pending (step (Render i passed auth loc) st0) = pending st0 @ [call]
                \<and> (\<forall>ev \<in> set evs. \<not> stores_result ev)
                \<and> st = run evs (step (Render i passed auth loc) st0))
             \<longrightarrow> map_of (ret_allowedActions ret) =
                   (\<lambda>key. if key \<in> (\<lambda>n. ''can'' @ n) ` getActionName ` set (ret_permissions ret)
                           then Some False else None))"
proof -
  from assms(1,2) have st': "error st' = Some e \<and> \<not> isLoading st' \<and> data st' = data st"
    by (simp add: rejected_state del: step.simps)
  have r: "ret_error ret = Some e \<and> ret_isLoading ret = auth'"
    using st' assms(3) by (simp only: ret_error_useRBAC ret_isLoading_useRBAC simp_thms)
  have "map_of (ret_allowedActions ret) =
           (\<lambda>key. if key \<in> (\<lambda>n. ''can'' @ n) ` getActionName ` set (ret_permissions ret)
                   then Some False else None)"
    if "\<exists>st0 i passed auth loc call evs.
          pending (step (Render i passed auth loc) st0) = pending st0 @ [call]
          \<and> (\<forall>ev \<in> set evs. \<not> stores_result ev)
          \<and> st = run evs (step (Render i passed auth loc) st0)"
  proof -
    from that obtain st0 i passed auth loc1 call evs
      where started: "pending (step (Render i passed auth loc1) st0) = pending st0 @ [call]"
        and quiet: "\<forall>ev \<in> set evs. \<not> stores_result ev"
        and st: "st = run evs (step (Render i passed auth loc1) st0)"
      by blast
    from started have "data (step (Render i passed auth loc1) st0) = None"
      by (simp only: render_started)
    with quiet have "data (run evs (step (Render i passed auth loc1) st0)) = None"
      by (rule run_keeps_no_result)
    with st st' have "data st' = None" by simp
    then have al: "ret_allowedActions ret =
        allowedActions (defaultAllowedActions (ret_permissions ret)) None"
      using assms(3) by (simp only: ret_allowedActions_useRBAC)
    show ?thesis unfolding al by (rule allowedActions_default_map)
  qed
  with st' r show ?thesis by blast
qed

text \<open>
  The amended claim C5, twice. The second of two checks rejects after the first has
  resolved with \<^verbatim>\<open>read\<close>: the error is the rejection value and the loading flag is
  cleared. And a check of \<^verbatim>\<open>read\<close>, \<^verbatim>\<open>create\<close> rejects after one more render: the flags
  are the all-false default as well.
\<close>

theorem rejected_check_witness:
  "error (step (Rejected 0 ''Forbidden'')
      (run [Render (PermissionArray [read_permission]) None False (Some ''en''),
            Render (PermissionArray [read_permission]) None False (Some ''fr''),
            Resolved 0 (Some [read_permission])]
        (initial_state :: (unit, string) hook_state))) = Some ''Forbidden''
   \<and> \<not> isLoading (step (Rejected 0 ''Forbidden'')
      (run [Render (PermissionArray [read_permission]) None False (Some ''en''),
            Render (PermissionArray [read_permission]) None False (Some ''fr''),
            Resolved 0 (Some [read_permission])]
        (initial_state :: (unit, string) hook_state)))
   \<and> error (step (Rejected 0 ''Forbidden'')
      (run [Render (PermissionArray [read_permission, create_permission]) None True None]
        (step (Render (PermissionArray [read_permission, create_permission]) None False None)
          (initial_state :: (unit, string) hook_state)))) = Some ''Forbidden''
   \<and> map_of (ret_allowedActions (fst (useRBAC (PermissionArray [read_permission, create_permission]) None False None
      (step (Rejected 0 ''Forbidden'')
        (run [Render (PermissionArray [read_permission, create_permission]) None True None]
          (step (Render (PermissionArray [read_permission, create_permission]) None False None)
            (initial_state :: (unit, string) hook_state))))))) ''canRead'' = Some False"
proof -
  let ?init = "initial_state :: (unit, string) hook_state"
  let ?stale = "run [Render (PermissionArray [read_permission]) None False (Some ''en''),
            Render (PermissionArray [read_permission]) None False (Some ''fr''),
            Resolved 0 (Some [read_permission])] ?init"
  let ?i = "PermissionArray [read_permission, create_permission] :: unit permissionsToCheck"
  let ?evs = "[Render ?i None True None] :: (unit, string) event list"
  let ?s = "step (Render ?i None False None) ?init"
  have k1: "0 < length (pending ?stale)"
    by (simp add: useRBAC_state normalized_flag initial_state_def Let_def
        finally_callback_def then_callback_def settle_def)
  have k2: "0 < length (pending (run ?evs ?s))"
    by (simp add: useRBAC_state normalized_flag initial_state_def Let_def)
  have h1: "pending ?s = pending ?init @ [([read_permission, create_permission], None)]"
    by (simp add: useRBAC_state normalized_flag initial_state_def Let_def)
  have h2: "\<forall>ev \<in> set ?evs. \<not> stores_result ev" by simp
  have ex: "\<exists>st0 i passed auth loc call evs.
                pending (step (Render i passed auth loc) st0) = pending st0 @ [call]
                \<and> (\<forall>ev \<in> set evs. \<not> stores_result ev)
                \<and> run ?evs ?s = run evs (step (Render i passed auth loc) st0)"
    using h1 h2 by blast
  note a = rejected_check [OF k1 refl refl, of "''Forbidden''" ?i None False None]
  note b = rejected_check [OF k2 refl refl, of "''Forbidden''" ?i None False None]
  from b ex have m: "map_of (ret_allowedActions (fst (useRBAC ?i None False None
      (step (Rejected 0 ''Forbidden'') (run ?evs ?s))))) =
      (\<lambda>key. if key \<in> (\<lambda>n. ''can'' @ n) ` getActionName ` set
          (ret_permissions (fst (useRBAC ?i None False None (step (Rejected 0 ''Forbidden'') (run ?evs ?s)))))
        then Some False else None)"
    by blast
  have "map_of (ret_allowedActions (fst (useRBAC ?i None False None
      (step (Rejected 0 ''Forbidden'') (run ?evs ?s))))) ''canRead'' = Some False"
    unfolding m by (simp add: ret_permissions_useRBAC getActionName_read del: step.simps run.simps)
  with a b show ?thesis by blast
qed

text \<open>
  Claim C5 as stated, for every rejection, fails in its last part. A check is
  started with the locale \<^verbatim>\<open>en\<close>; the locale changes to \<^verbatim>\<open>fr\<close>, which starts a second
  check; the first check resolves with \<^verbatim>\<open>read\<close>; the second check rejects. The error
  is the rejection value, and \<^verbatim>\<open>allowedActions\<close> is \<^verbatim>\<open>canRead: true\<close>, not the all-false
  default.
\<close>

theorem rejected_check_counterexample:
  "error (run [Render (PermissionArray [read_permission]) None False (Some ''en''),
               Render (PermissionArray [read_permission]) None False (Some ''fr''),
               Resolved 0 (Some [read_permission]),
               Rejected 0 ''Forbidden'']
           (initial_state :: (unit, string) hook_state)) = Some ''Forbidden''
   \<and> ret_allowedActions (fst (useRBAC (PermissionArray [read_permission]) None False (Some ''fr'')
        (run [Render (PermissionArray [read_permission]) None False (Some ''en''),
              Render (PermissionArray [read_permission]) None False (Some ''fr''),
              Resolved 0 (Some [read_permission]),
              Rejected 0 ''Forbidden'']
          (initial_state :: (unit, string) hook_state)))) = [(''canRead'', True)]
   \<and> allowedActions (defaultAllowedActions [read_permission]) None = [(''canRead'', False)]"
  by (simp add: useRBAC_def actualPermissionsToCheck_def initial_state_def Let_def
      finally_callback_def then_callback_def catch_callback_def settle_def
      allowedActions_def defaultAllowedActions_def grantedActions_def spread_def
      getActionName_read capitalise_def toUpperCase_def)

section \<open>Claim C4: the deprecation warning\<close>

text \<open>
  An event prints nothing, or it finds the flag of the warn-once utility unset, sets
  it and prints the deprecation warning once. No event unsets the flag.
\<close>

lemma printed_by_cases:
  "printed_by ev st = [] \<or> (\<not> called st \<and> called (step ev st) \<and> printed_by ev st = [deprecation])"
proof (cases ev)
  case (Render i passed auth loc)
  then show ?thesis
    by (cases i) (simp_all add: useRBAC_def actualPermissionsToCheck_def once_def Let_def)
next
  case (Resolved k res)
  then show ?thesis by simp
next
  case (Rejected k err)
  then show ?thesis by simp
qed

lemma called_step: "called st \<Longrightarrow> called (step ev st)"
proof (cases ev)
  case (Render i passed auth loc)
  assume "called st"
  with Render show ?thesis
    by (cases i) (simp_all add: useRBAC_def actualPermissionsToCheck_def once_def Let_def)
next
  case (Resolved k res)
  assume "called st"
  with Resolved show ?thesis
    by (cases res) (simp_all add: finally_callback_def then_callback_def settle_def)
next
  case (Rejected k err)
  assume "called st"
  with Rejected show ?thesis
    by (simp add: finally_callback_def catch_callback_def settle_def)
qed

text \<open>
  The console holds nothing while the flag of the process is unset, and the one
  deprecation warning once it is set.
\<close>

lemma process_step_console:
  assumes "if warned p then console p = [deprecation] else console p = []"
  shows "if warned (process_step pev p) then console (process_step pev p) = [deprecation]
         else console (process_step pev p) = []"
proof (cases pev)
  case Mount
  with assms show ?thesis by simp
next
  case (At i ev)
  show ?thesis
  proof (cases "i < length (hooks p)")
    case False
    with At assms show ?thesis by simp
  next
    case True
    let ?st = "(hooks p ! i)\<lparr>called := warned p\<rparr>"
    from printed_by_cases [of ev ?st] show ?thesis
    proof
      assume e: "printed_by ev ?st = []"
      show ?thesis
      proof (cases "warned p")
        case True
        then have "called (step ev ?st)" by (simp add: called_step)
        with e assms At \<open>i < length (hooks p)\<close> True show ?thesis by (simp add: Let_def)
      next
        case False
        have nc: "\<not> called (step ev ?st)"
        proof (cases ev)
          case (Render j passed auth loc)
          with e False show ?thesis
            by (cases j) (simp_all add: useRBAC_def actualPermissionsToCheck_def once_def Let_def)
        next
          case (Resolved k res)
          with False show ?thesis
            by (cases res) (simp_all add: finally_callback_def then_callback_def settle_def)
        next
          case (Rejected k err)
          with False show ?thesis
            by (simp add: finally_callback_def catch_callback_def settle_def)
        qed
        with e assms At \<open>i < length (hooks p)\<close> False show ?thesis by (simp add: Let_def)
      qed
    next
      assume pr: "\<not> called ?st \<and> called (step ev ?st) \<and> printed_by ev ?st = [deprecation]"
      then have "\<not> warned p" by simp
      with pr assms At True show ?thesis by (simp add: Let_def)
    qed
  qed
qed

lemma process_run_console:
  "(if warned p then console p = [deprecation] else console p = []) \<Longrightarrow>
     (if warned (process_run pevs p) then console (process_run pevs p) = [deprecation]
      else console (process_run pevs p) = [])"
proof (induction pevs arbitrary: p)
  case Nil
  then show ?case by simp
next
  case (Cons pev pevs)
  from Cons.prems have "if warned (process_step pev p) then console (process_step pev p) = [deprecation]
         else console (process_step pev p) = []"
    by (rule process_step_console)
  then have "if warned (process_run pevs (process_step pev p))
      then console (process_run pevs (process_step pev p)) = [deprecation]
      else console (process_run pevs (process_step pev p)) = []"
    by (rule Cons.IH)
  then show ?case by simp
qed

text \<open>
  Claim C4. With the process-wide warn-once utility of the spec, a process prints
  the deprecation warning at most once in its lifetime, whatever instances are
  mounted and whatever the sequence of their renders and settled checks: the console
  is empty or holds the one warning.
\<close>

theorem warning_once_per_process:
  "length (console (process_run pevs initial_process)) \<le> 1
   \<and> set (console (process_run pevs initial_process)) \<subseteq> {deprecation}"
proof -
  have "if warned (process_run pevs initial_process)
      then console (process_run pevs initial_process) = [deprecation]
      else console (process_run pevs initial_process) = []"
    by (rule process_run_console) (simp add: initial_process_def)
  then show ?thesis by (simp split: if_splits)
qed

text \<open>
  Claim C4 on two instances, each rendered twice with the object form: the console
  holds the warning once.
\<close>

theorem warning_once_per_process_witness:
  "console (process_run
      [Mount, Mount,
       At 0 (Render (PermissionRecord [(''roles'', [read_permission])]) None False None),
       At 1 (Render (PermissionRecord [(''roles'', [read_permission])]) None False None),
       At 0 (Render (PermissionRecord [(''users'', [create_permission])]) None False None),
       At 1 (Render (PermissionRecord [(''users'', [create_permission])]) None False None)]
      (initial_process :: (unit, string) process)) = [deprecation]"
proof -
  let ?pevs = "[Mount, Mount,
       At 0 (Render (PermissionRecord [(''roles'', [read_permission])]) None False None),
       At 1 (Render (PermissionRecord [(''roles'', [read_permission])]) None False None),
       At 0 (Render (PermissionRecord [(''users'', [create_permission])]) None False None),
       At 1 (Render (PermissionRecord [(''users'', [create_permission])]) None False None)]
      :: (unit, string) process_event list"
  have "console (process_run (take 3 ?pevs) (initial_process :: (unit, string) process)) = [deprecation]"
    by (simp add: initial_process_def initial_state_def useRBAC_def actualPermissionsToCheck_def
        once_def Let_def)
  moreover have "console (process_run ?pevs (initial_process :: (unit, string) process)) =
      console (process_run (take 3 ?pevs) (initial_process :: (unit, string) process))
        @ drop 1 (console (process_run ?pevs (initial_process :: (unit, string) process)))"
    by (simp add: initial_process_def initial_state_def useRBAC_def actualPermissionsToCheck_def
        once_def Let_def)
  ultimately show ?thesis
    using warning_once_per_process [of ?pevs]
    by (cases "console (process_run ?pevs (initial_process :: (unit, string) process))") simp_all
qed

end
